theory Spec2Isabelle
  imports Main
begin

section \<open>Data model of app.py\<close>

text \<open>
  The program is a Flask-SocketIO server with one module-level dictionary,
  \<^verbatim>\<open>child_processes\<close>, keyed by the session id \<^verbatim>\<open>request.sid\<close>, whose values are
  \<^verbatim>\<open>pexpect.spawn\<close> objects. A session id is a string; a child object is identified by
  the order of its creation (object identity). A Python \<^verbatim>\<open>str\<close> is represented by the
  bytes of its UTF-8 encoding.
\<close>

type_synonym sid = string
type_synonym pid = nat

text \<open>The four outbound messages, each with its single payload field.\<close>

datatype event =
    gamdl_output string
  | info_message string
  | error_message string
  | download_complete string

text \<open>The methods of a child that act on the process or its handle.\<close>

datatype pcall = SendEof | Terminate bool | Close | Send string

text \<open>
  Everything the code does to the outside, and every mutation of \<^verbatim>\<open>child_processes\<close>,
  is recorded in program order. \<open>Read p bs s\<close> is a \<^verbatim>\<open>read_nonblocking\<close> on child \<open>p\<close>
  that took the bytes \<open>bs\<close> from the pty and returned the text \<open>s\<close>; \<open>Alive p b\<close> is
  an \<^verbatim>\<open>isalive()\<close> that returned \<open>b\<close>, \<open>AliveRaised p e\<close> one that raised; \<open>Call p c\<close>
  is the invocation of method \<open>c\<close> (recorded also when it raises).
\<close>

datatype effect =
    Emit sid event
  | Read pid string string
  | Alive pid bool
  | AliveRaised pid string
  | Call pid pcall
  | Sleep
  | JoinRoom sid
  | LeaveRoom sid
  | Spawn pid "string list"
  | ThreadStart sid pid
  | RegSet sid pid
  | RegDel sid

text \<open>
  What one iteration of the pump's \<^verbatim>\<open>while True\<close> gets from \<^verbatim>\<open>read_nonblocking\<close>.
  \<open>Output bs s\<close>: the call took the bytes \<open>bs\<close> from the pty and returned the text
  \<open>s\<close>. The child is spawned with \<^verbatim>\<open>encoding='utf-8'\<close> (line 134), so an incremental
  decoder of the library stands between the two: \<open>s\<close> is what it releases, which is
  empty while it holds back the first bytes of an unfinished character.
  \<open>TIMEOUT r\<close>: the call raised \<^verbatim>\<open>pexpect.TIMEOUT\<close>, and \<open>r\<close> is what \<^verbatim>\<open>isalive()\<close> then
  does at line 43 (\<open>Inr b\<close>: it answers \<open>b\<close>; \<open>Inl e\<close>: it raises).
  \<open>EOF\<close>: the call raised \<^verbatim>\<open>pexpect.EOF\<close>. \<open>ReadError e\<close>: it raised any other exception,
  \<open>e\<close> being its \<^verbatim>\<open>str(e)\<close>.
\<close>

datatype read_event = Output string string | TIMEOUT "string + bool" | EOF | ReadError string

text \<open>What \<^verbatim>\<open>pexpect.spawn\<close> does at line 132.\<close>

datatype spawn_result = Spawned | ExceptionPexpect string | OtherException string

text \<open>How a statement of the loop body ends.\<close>

datatype flow = Continue | Break | Raise string

text \<open>
  The control point of a pump thread, named by the source line it is about to execute:
  line 38 (the read of the loop), line 61, 64, 66 and 68 of the \<^verbatim>\<open>finally\<close> block. The
  points of the \<^verbatim>\<open>finally\<close> block carry the exception that left the loop, if any (only
  \<^verbatim>\<open>isalive()\<close> at line 43 can raise there): it is raised again when the block ends.
  \<open>Finished x\<close>: the \<^verbatim>\<open>finally\<close> block ran to its end (after line 69), and the function
  returned (\<open>x = None\<close>) or raised the pending exception again. \<open>Raised e\<close>: an exception
  left the \<^verbatim>\<open>finally\<close> block before its end.
\<close>

datatype pc =
    L38
  | L61 "string option"
  | L64 "string option"
  | L66 "string option"
  | L68 "string option"
  | Finished "string option"
  | Raised string

record world =
  child_processes :: "sid \<rightharpoonup> pid"
  threads :: "pid \<rightharpoonup> sid \<times> pc"
  next_child :: pid
  trace :: "effect list"

definition initial :: world where
  "initial = \<lparr>child_processes = Map.empty, threads = Map.empty, next_child = 0, trace = []\<rparr>"

definition GAMDL_COOKIES_PATH :: string where
  "GAMDL_COOKIES_PATH = ''/app/config/cookies.txt''"

definition GAMDL_OUTPUT_PATH :: string where
  "GAMDL_OUTPUT_PATH = ''/app/music''"

section \<open>Primitive operations\<close>

text \<open>
  The library calls are the environment of the program. Its choices are arguments of
  the functions below: what a read returns, what \<^verbatim>\<open>isalive()\<close> answers or whether it
  raises, whether \<^verbatim>\<open>sendeof\<close>, \<^verbatim>\<open>terminate\<close>, \<^verbatim>\<open>close\<close>, \<^verbatim>\<open>send\<close> or \<^verbatim>\<open>pexpect.spawn\<close>
  raises. Every theorem holds for all of these choices unless it says otherwise. Taken
  as returning normally are \<^verbatim>\<open>socketio.emit\<close>, \<^verbatim>\<open>socketio.sleep\<close>, \<^verbatim>\<open>join_room\<close>,
  \<^verbatim>\<open>leave_room\<close>, \<^verbatim>\<open>print\<close> and \<^verbatim>\<open>Thread.start\<close>.
\<close>

definition log :: "effect \<Rightarrow> world \<Rightarrow> world" where
  "log e w = w\<lparr>trace := trace w @ [e]\<rparr>"

definition emit :: "sid \<Rightarrow> event \<Rightarrow> world \<Rightarrow> world" where
  "emit sid ev w = log (Emit sid ev) w"

text \<open>\<^verbatim>\<open>child_processes[sid] = child\<close>\<close>

definition reg_set :: "sid \<Rightarrow> pid \<Rightarrow> world \<Rightarrow> world" where
  "reg_set sid p w = log (RegSet sid p) (w\<lparr>child_processes := (child_processes w)(sid \<mapsto> p)\<rparr>)"

text \<open>\<^verbatim>\<open>del child_processes[sid]\<close>: raises \<^verbatim>\<open>KeyError\<close> when the key is absent.\<close>

definition reg_del :: "sid \<Rightarrow> world \<Rightarrow> (string + unit) \<times> world" where
  "reg_del sid w =
     (if sid \<in> dom (child_processes w)
      then (Inr (), log (RegDel sid) (w\<lparr>child_processes := (child_processes w)(sid := None)\<rparr>))
      else (Inl ''KeyError'', w))"

text \<open>\<^verbatim>\<open>child_processes.pop(sid, None)\<close>: never raises.\<close>

definition reg_pop :: "sid \<Rightarrow> world \<Rightarrow> pid option \<times> world" where
  "reg_pop sid w =
     (case child_processes w sid of
        None \<Rightarrow> (None, w)
      | Some p \<Rightarrow> (Some p, log (RegDel sid) (w\<lparr>child_processes := (child_processes w)(sid := None)\<rparr>)))"

text \<open>
  \<^verbatim>\<open>child.isalive()\<close>: the environment's choice \<open>r\<close> is an answer (\<open>Inr b\<close>) or an
  exception (\<open>Inl e\<close>); either is recorded.
\<close>

definition isalive :: "pid \<Rightarrow> string + bool \<Rightarrow> world \<Rightarrow> (string + bool) \<times> world" where
  "isalive p r w =
     (case r of
        Inl e \<Rightarrow> (Inl e, log (AliveRaised p e) w)
      | Inr b \<Rightarrow> (Inr b, log (Alive p b) w))"

text \<open>
  A method call on a child: it is recorded, and raises when the environment says so
  (\<open>exc = Some msg\<close>).
\<close>

definition call :: "pid \<Rightarrow> pcall \<Rightarrow> string option \<Rightarrow> world \<Rightarrow> (string + unit) \<times> world" where
  "call p c exc w =
     (case exc of
        None \<Rightarrow> (Inr (), log (Call p c) w)
      | Some e \<Rightarrow> (Inl e, log (Call p c) w))"

text \<open>\<^verbatim>\<open>if child_process.isalive(): child_process.c()\<close>\<close>

definition if_alive_call ::
  "pid \<Rightarrow> string + bool \<Rightarrow> pcall \<Rightarrow> string option \<Rightarrow> world \<Rightarrow> (string + unit) \<times> world" where
  "if_alive_call p r c exc w =
     (case isalive p r w of
        (Inl e, w1) \<Rightarrow> (Inl e, w1)
      | (Inr alive, w1) \<Rightarrow> if alive then call p c exc w1 else (Inr (), w1))"

section \<open>read_gamdl_output (lines 27--69)\<close>

text \<open>
  One iteration of the loop body (lines 35--58). An exception of \<^verbatim>\<open>isalive()\<close> at line
  43 is raised inside the handler of \<^verbatim>\<open>pexpect.TIMEOUT\<close>, so the \<^verbatim>\<open>except Exception\<close> of
  line 53 does not catch it: it leaves the loop.
\<close>

fun loop_iter :: "sid \<Rightarrow> pid \<Rightarrow> read_event \<Rightarrow> world \<Rightarrow> flow \<times> world" where
  "loop_iter sid p (Output bs s) w =
     (let w1 = log (Read p bs s) w
      in (Continue, if s \<noteq> [] then emit sid (gamdl_output s) w1 else w1))"
| "loop_iter sid p (TIMEOUT r) w =
     (case isalive p r w of
        (Inl e, w1) \<Rightarrow> (Raise e, w1)
      | (Inr alive, w1) \<Rightarrow>
          if \<not> alive
          then (Break, emit sid (info_message ''gamdl process appears to have exited.'') w1)
          else (Continue, w1))"
| "loop_iter sid p EOF w =
     (Break, emit sid (info_message ''gamdl process finished (EOF).'') w)"
| "loop_iter sid p (ReadError e) w =
     (Break, emit sid (error_message (''Error reading gamdl output for SID '' @ sid @ '': '' @ e)) w)"

text \<open>
  The loop on a finite sequence of read results. \<open>(Break, w)\<close>: a \<^verbatim>\<open>break\<close> was reached;
  \<open>(Raise e, w)\<close>: an exception left the loop; \<open>(Continue, w)\<close>: the sequence ended with
  the loop still running.
\<close>

fun pump_loop :: "sid \<Rightarrow> pid \<Rightarrow> read_event list \<Rightarrow> world \<Rightarrow> flow \<times> world" where
  "pump_loop sid p [] w = (Continue, w)"
| "pump_loop sid p (ev # evs) w =
     (case loop_iter sid p ev w of
        (Continue, w1) \<Rightarrow> pump_loop sid p evs w1
      | (Break, w1) \<Rightarrow> (Break, w1)
      | (Raise e, w1) \<Rightarrow> (Raise e, w1))"

text \<open>Lines 61--63: \<^verbatim>\<open>if child_process.isalive(): child_process.close()\<close>\<close>

definition fin_close :: "pid \<Rightarrow> string + bool \<Rightarrow> string option \<Rightarrow> world \<Rightarrow> (string + unit) \<times> world" where
  "fin_close p r close_exc w = if_alive_call p r Close close_exc w"

text \<open>Line 64: \<^verbatim>\<open>if sid in child_processes\<close>\<close>

definition fin_check :: "sid \<Rightarrow> world \<Rightarrow> bool" where
  "fin_check sid w = (sid \<in> dom (child_processes w))"

text \<open>Line 66: \<^verbatim>\<open>del child_processes[sid]\<close>\<close>

definition fin_del :: "sid \<Rightarrow> world \<Rightarrow> (string + unit) \<times> world" where
  "fin_del sid w = reg_del sid w"

text \<open>Line 68\<close>

definition fin_notify :: "sid \<Rightarrow> world \<Rightarrow> world" where
  "fin_notify sid w = emit sid (download_complete ''Download process and cleanup finished.'') w"

text \<open>
  The \<^verbatim>\<open>finally\<close> block (lines 59--69) run without interruption. There is no
  \<^verbatim>\<open>except\<close> inside it: an exception of \<^verbatim>\<open>isalive()\<close>, of \<^verbatim>\<open>close()\<close> or of \<^verbatim>\<open>del\<close>
  leaves the block.
\<close>

definition finalize ::
  "sid \<Rightarrow> pid \<Rightarrow> string + bool \<Rightarrow> string option \<Rightarrow> world \<Rightarrow> (string + unit) \<times> world" where
  "finalize sid p r close_exc w =
     (case fin_close p r close_exc w of
        (Inl e, w1) \<Rightarrow> (Inl e, w1)
      | (Inr _, w1) \<Rightarrow>
          if fin_check sid w1
          then (case fin_del sid w1 of
                  (Inl e, w2) \<Rightarrow> (Inl e, w2)
                | (Inr _, w2) \<Rightarrow> (Inr (), fin_notify sid w2))
          else (Inr (), fin_notify sid w1))"

text \<open>
  The whole function, run without interruption on the read results \<open>evs\<close>; \<open>r\<close> and
  \<open>close_exc\<close> are what \<^verbatim>\<open>isalive()\<close> does at line 61 and what \<^verbatim>\<open>close()\<close> does at
  line 63. \<open>None\<close>: the loop is still running when \<open>evs\<close> is used up. An exception that
  left the loop is raised again after the \<^verbatim>\<open>finally\<close> block, unless the block raises one
  itself.
\<close>

definition read_gamdl_output ::
  "sid \<Rightarrow> pid \<Rightarrow> read_event list \<Rightarrow> string + bool \<Rightarrow> string option \<Rightarrow> world \<Rightarrow>
   (string + unit) option \<times> world" where
  "read_gamdl_output sid p evs r close_exc w =
     (case pump_loop sid p evs w of
        (Continue, w1) \<Rightarrow> (None, w1)
      | (Break, w1) \<Rightarrow> (case finalize sid p r close_exc w1 of (res, w2) \<Rightarrow> (Some res, w2))
      | (Raise e, w1) \<Rightarrow>
          (case finalize sid p r close_exc w1 of
             (Inl e', w2) \<Rightarrow> (Some (Inl e'), w2)
           | (Inr _, w2) \<Rightarrow> (Some (Inl e), w2)))"

text \<open>
  The same function as a thread that other code interleaves with: one step from each
  control point. The step at \<open>L38\<close> is one loop iteration; the steps of the \<^verbatim>\<open>finally\<close>
  block are its four statements.
\<close>

definition set_pc :: "pid \<Rightarrow> sid \<Rightarrow> pc \<Rightarrow> world \<Rightarrow> world" where
  "set_pc p sid c w = w\<lparr>threads := (threads w)(p \<mapsto> (sid, c))\<rparr>"

fun pump_step ::
  "sid \<Rightarrow> pid \<Rightarrow> pc \<Rightarrow> read_event \<Rightarrow> string + bool \<Rightarrow> string option \<Rightarrow> world \<Rightarrow> world" where
  "pump_step sid p L38 ev r close_exc w =
     (case loop_iter sid p ev w of
        (Continue, w1) \<Rightarrow> set_pc p sid L38 w1
      | (Break, w1) \<Rightarrow> set_pc p sid (L61 None) w1
      | (Raise e, w1) \<Rightarrow> set_pc p sid (L61 (Some e)) w1)"
| "pump_step sid p (L61 x) ev r close_exc w =
     (case fin_close p r close_exc w of
        (Inl e, w1) \<Rightarrow> set_pc p sid (Raised e) w1
      | (Inr _, w1) \<Rightarrow> set_pc p sid (L64 x) w1)"
| "pump_step sid p (L64 x) ev r close_exc w =
     (if fin_check sid w then set_pc p sid (L66 x) w else set_pc p sid (L68 x) w)"
| "pump_step sid p (L66 x) ev r close_exc w =
     (case fin_del sid w of
        (Inl e, w1) \<Rightarrow> set_pc p sid (Raised e) w1
      | (Inr _, w1) \<Rightarrow> set_pc p sid (L68 x) w1)"
| "pump_step sid p (L68 x) ev r close_exc w = set_pc p sid (Finished x) (fin_notify sid w)"
| "pump_step sid p (Finished x) ev r close_exc w = w"
| "pump_step sid p (Raised e) ev r close_exc w = w"

section \<open>The event handlers\<close>

text \<open>handle_connect (lines 71--75)\<close>

definition handle_connect :: "sid \<Rightarrow> world \<Rightarrow> world" where
  "handle_connect sid w = log (JoinRoom sid) w"

text \<open>
  handle_disconnect (lines 79--95). The environment says what each of the four
  \<^verbatim>\<open>isalive()\<close> calls does and which of \<^verbatim>\<open>sendeof()\<close>, \<^verbatim>\<open>terminate(force=False)\<close> and
  \<^verbatim>\<open>terminate(force=True)\<close> raises.
\<close>

record disconnect_env =
  alive84 :: "string + bool"
  alive88 :: "string + bool"
  raise88 :: "string option"
  alive90 :: "string + bool"
  raise90 :: "string option"
  alive92 :: "string + bool"
  raise92 :: "string option"

text \<open>The body of the \<^verbatim>\<open>try\<close> (lines 88--92).\<close>

definition terminate_steps :: "pid \<Rightarrow> disconnect_env \<Rightarrow> world \<Rightarrow> (string + unit) \<times> world" where
  "terminate_steps p env w =
     (case if_alive_call p (alive88 env) SendEof (raise88 env) w of
        (Inl e, w1) \<Rightarrow> (Inl e, w1)
      | (Inr _, w1) \<Rightarrow>
          (case if_alive_call p (alive90 env) (Terminate False) (raise90 env) (log Sleep w1) of
             (Inl e, w2) \<Rightarrow> (Inl e, w2)
           | (Inr _, w2) \<Rightarrow>
               if_alive_call p (alive92 env) (Terminate True) (raise92 env) (log Sleep w2)))"

text \<open>
  The handler. Its first component is \<open>Inl e\<close> if an exception leaves the handler. The
  \<^verbatim>\<open>isalive()\<close> of line 84 stands before the \<^verbatim>\<open>try\<close> of line 86: when it raises, the
  exception leaves the handler and line 95 is not reached. The \<^verbatim>\<open>except Exception\<close> of
  line 93 catches what the body of the \<^verbatim>\<open>try\<close> raises, and only prints.
\<close>

definition handle_disconnect :: "sid \<Rightarrow> disconnect_env \<Rightarrow> world \<Rightarrow> (string + unit) \<times> world" where
  "handle_disconnect sid env w =
     (case reg_pop sid w of
        (None, w1) \<Rightarrow> (Inr (), log (LeaveRoom sid) w1)
      | (Some p, w1) \<Rightarrow>
          (case isalive p (alive84 env) w1 of
             (Inl e, w2) \<Rightarrow> (Inl e, w2)
           | (Inr alive, w2) \<Rightarrow>
               if alive
               then (case terminate_steps p env w2 of
                       (Inl e, w3) \<Rightarrow> (Inr (), log (LeaveRoom sid) w3)
                     | (Inr _, w3) \<Rightarrow> (Inr (), log (LeaveRoom sid) w3))
               else (Inr (), log (LeaveRoom sid) w2)))"

text \<open>
  handle_start_download (lines 97--158). \<open>data_dict\<close> is the message's dictionary,
  \<open>alive100\<close> what \<^verbatim>\<open>isalive()\<close> does at line 100 (called only when the session has an
  entry; it stands outside the \<^verbatim>\<open>try\<close>, so its exception leaves the handler), \<open>sp\<close>
  what \<^verbatim>\<open>pexpect.spawn\<close> does.
\<close>

definition gamdl_command_args :: "string \<Rightarrow> string list" where
  "gamdl_command_args apple_music_url =
     [''--cookies-path'', GAMDL_COOKIES_PATH,
      ''--output-path'', GAMDL_OUTPUT_PATH,
      ''--mp4decrypt-path'', ''/usr/local/bin/mp4decrypt'',
      apple_music_url]"

text \<open>Lines 151--152 and 157--158: \<^verbatim>\<open>if sid in child_processes: del child_processes[sid]\<close>\<close>

definition cleanup_entry :: "sid \<Rightarrow> world \<Rightarrow> world" where
  "cleanup_entry sid w = (if sid \<in> dom (child_processes w) then snd (reg_del sid w) else w)"

text \<open>Lines 107--158, after the check of line 100 has let the request through.\<close>

definition start_body :: "sid \<Rightarrow> (string \<rightharpoonup> string) \<Rightarrow> spawn_result \<Rightarrow> world \<Rightarrow> world" where
  "start_body sid data_dict sp w =
     (case data_dict ''url'' of
        None \<Rightarrow> emit sid (error_message ''No Apple Music URL provided.'') w
      | Some apple_music_url \<Rightarrow>
          if apple_music_url = []
          then emit sid (error_message ''No Apple Music URL provided.'') w
          else
            (case sp of
               Spawned \<Rightarrow>
                 (let child = next_child w;
                      w1 = log (Spawn child (gamdl_command_args apple_music_url))
                             (w\<lparr>next_child := Suc child\<rparr>);
                      w2 = reg_set sid child w1;
                      w3 = log (ThreadStart sid child) (set_pc child sid L38 w2)
                  in emit sid (info_message (''gamdl process started for '' @ apple_music_url
                                             @ ''. Waiting for output...'')) w3)
             | ExceptionPexpect e \<Rightarrow>
                 cleanup_entry sid
                   (emit sid (error_message (''Failed to start gamdl: '' @ e
                      @ ''. Ensure 'gamdl' is installed and in your system's PATH.'')) w)
             | OtherException e \<Rightarrow>
                 cleanup_entry sid
                   (emit sid (error_message
                      (''An unexpected error occurred while trying to start gamdl: '' @ e)) w)))"

definition handle_start_download ::
  "sid \<Rightarrow> (string \<rightharpoonup> string) \<Rightarrow> string + bool \<Rightarrow> spawn_result \<Rightarrow> world \<Rightarrow>
   (string + unit) \<times> world" where
  "handle_start_download sid data_dict alive100 sp w =
     (case child_processes w sid of
        Some p \<Rightarrow>
          (case isalive p alive100 w of
             (Inl e, w1) \<Rightarrow> (Inl e, w1)
           | (Inr alive, w1) \<Rightarrow>
               if alive
               then (Inr (), emit sid (error_message
                       ''A download process is already running for your session.'') w1)
               else (Inr (), start_body sid data_dict sp w1))
      | None \<Rightarrow> (Inr (), start_body sid data_dict sp w))"

text \<open>
  handle_send_input (lines 160--184). \<open>alive171\<close> is what \<^verbatim>\<open>isalive()\<close> does at line 171
  (outside the \<^verbatim>\<open>try\<close>), \<open>send_exc\<close> what \<^verbatim>\<open>send\<close> does.
\<close>

definition handle_send_input ::
  "sid \<Rightarrow> (string \<rightharpoonup> string) \<Rightarrow> string + bool \<Rightarrow> string option \<Rightarrow> world \<Rightarrow>
   (string + unit) \<times> world" where
  "handle_send_input sid data_dict alive171 send_exc w =
     (case data_dict ''input'' of
        None \<Rightarrow> (Inr (), w)
      | Some user_input \<Rightarrow>
          (case child_processes w sid of
             None \<Rightarrow> (Inr (), emit sid (info_message
               ''No active gamdl process for your session, or process has ended. Input not sent.'') w)
           | Some p \<Rightarrow>
               (case isalive p alive171 w of
                  (Inl e, w1) \<Rightarrow> (Inl e, w1)
                | (Inr alive, w1) \<Rightarrow>
                    if alive
                    then (case call p (Send user_input) send_exc w1 of
                            (Inl e, w2) \<Rightarrow> (Inr (), emit sid (error_message
                               (''Error sending input to gamdl for SID '' @ sid @ '': '' @ e)) w2)
                          | (Inr _, w2) \<Rightarrow> (Inr (), w2))
                    else (Inr (), emit sid (info_message
               ''No active gamdl process for your session, or process has ended. Input not sent.'') w1))))"

section \<open>The system: handlers and pump threads interleaved\<close>

text \<open>
  A reachable world is the initial one (empty dictionary, no thread) followed by any
  sequence of handler invocations, for any session and any behaviour of the
  environment, and of steps of the pump threads that were started. A handler
  invocation is one step; a pump thread advances one control point at a time, so that
  handlers run between the statements of its \<^verbatim>\<open>finally\<close> block.
\<close>

inductive reachable :: "world \<Rightarrow> bool" where
  init: "reachable initial"
| connect: "reachable w \<Longrightarrow> reachable (handle_connect sid w)"
| disconnect: "reachable w \<Longrightarrow> reachable (snd (handle_disconnect sid env w))"
| start: "reachable w \<Longrightarrow> reachable (snd (handle_start_download sid data_dict alive100 sp w))"
| input: "reachable w \<Longrightarrow> reachable (snd (handle_send_input sid data_dict alive171 send_exc w))"
| pump: "reachable w \<Longrightarrow> threads w p = Some (sid, c) \<Longrightarrow>
         reachable (pump_step sid p c ev r close_exc w)"

section \<open>Observations on traces\<close>

text \<open>The effects that happened between world \<open>w\<close> and a later world \<open>w'\<close>.\<close>

definition since :: "world \<Rightarrow> world \<Rightarrow> effect list" where
  "since w w' = drop (length (trace w)) (trace w')"

text \<open>The bytes taken from the pty of child \<open>p\<close>, in order.\<close>

fun taken :: "pid \<Rightarrow> effect list \<Rightarrow> string" where
  "taken p [] = []"
| "taken p (Read q bs s # es) = (if q = p then bs @ taken p es else taken p es)"
| "taken p (e # es) = taken p es"

text \<open>The texts that the reads on child \<open>p\<close> returned, in order.\<close>

fun reads :: "pid \<Rightarrow> effect list \<Rightarrow> string list" where
  "reads p [] = []"
| "reads p (Read q bs s # es) = (if q = p then s # reads p es else reads p es)"
| "reads p (e # es) = reads p es"

text \<open>The \<^verbatim>\<open>gamdl_output\<close> messages with the room each was sent to, in order.\<close>

fun outputs :: "effect list \<Rightarrow> (sid \<times> string) list" where
  "outputs [] = []"
| "outputs (Emit r (gamdl_output s) # es) = (r, s) # outputs es"
| "outputs (e # es) = outputs es"

text \<open>The number of \<^verbatim>\<open>download_complete\<close> messages sent to the room of a session.\<close>

fun completions :: "sid \<Rightarrow> effect list \<Rightarrow> nat" where
  "completions sid [] = 0"
| "completions sid (Emit r (download_complete m) # es) =
     (if r = sid then Suc (completions sid es) else completions sid es)"
| "completions sid (e # es) = completions sid es"

text \<open>
  The texts that the environment hands to the loop before the loop ends: those of the
  read results up to the first one that is neither a text nor a timeout with the child
  alive.
\<close>

fun texts_read :: "read_event list \<Rightarrow> string list" where
  "texts_read [] = []"
| "texts_read (Output bs s # evs) = s # texts_read evs"
| "texts_read (TIMEOUT (Inr True) # evs) = texts_read evs"
| "texts_read (ev # evs) = []"

fun is_finished :: "pc \<Rightarrow> bool" where
  "is_finished (Finished x) = True"
| "is_finished c = False"

text \<open>
  A child was spawned for the session and the pump bound to it has not run its
  \<^verbatim>\<open>finally\<close> block to the end.
\<close>

definition cleanup_pending :: "world \<Rightarrow> sid \<Rightarrow> bool" where
  "cleanup_pending w sid =
     list_ex (\<lambda>p. case threads w p of
                    None \<Rightarrow> False
                  | Some (s, c) \<Rightarrow> s = sid \<and> \<not> is_finished c)
             [0..<next_child w]"

section \<open>Some worlds and environments\<close>

text \<open>
  A world in which the client of session \<open>''s''\<close> has connected and started a download:
  child 0, pump at line 38.
\<close>

definition started :: world where
  "started = snd (handle_start_download ''s'' [''url'' \<mapsto> ''u''] (Inr False) Spawned
               (handle_connect ''s'' initial))"

text \<open>
  Behaviours of the environment during a disconnect: the process stays alive through
  the whole escalation; it stays alive and \<^verbatim>\<open>sendeof()\<close> raises; it is dead already;
  the \<^verbatim>\<open>isalive()\<close> of line 84 raises (the library does so when another thread has
  reaped the child).
\<close>

definition killing_env :: disconnect_env where
  "killing_env = \<lparr>alive84 = Inr True, alive88 = Inr True, raise88 = None,
                  alive90 = Inr True, raise90 = None, alive92 = Inr True, raise92 = None\<rparr>"

definition raising_env :: disconnect_env where
  "raising_env = \<lparr>alive84 = Inr True, alive88 = Inr True, raise88 = Some ''OSError'',
                  alive90 = Inr True, raise90 = None, alive92 = Inr True, raise92 = None\<rparr>"

definition dead_env :: disconnect_env where
  "dead_env = \<lparr>alive84 = Inr False, alive88 = Inr False, raise88 = None,
               alive90 = Inr False, raise90 = None, alive92 = Inr False, raise92 = None\<rparr>"

definition reaped_env :: disconnect_env where
  "reaped_env = \<lparr>alive84 = Inl ''no child process'', alive88 = Inr False, raise88 = None,
                 alive90 = Inr False, raise90 = None, alive92 = Inr False, raise92 = None\<rparr>"

text \<open>The client of \<open>''s''\<close> disconnects while its download runs.\<close>

definition disconnected :: world where
  "disconnected = snd (handle_disconnect ''s'' killing_env started)"

text \<open>
  The pump of child 0 has seen \<^verbatim>\<open>EOF\<close>, found the child dead at line 61 and the entry
  present at line 64: it is about to execute line 66.
\<close>

definition at_L66 :: world where
  "at_L66 = pump_step ''s'' 0 (L64 None) EOF (Inr False) None
              (pump_step ''s'' 0 (L61 None) EOF (Inr False) None
                (pump_step ''s'' 0 L38 EOF (Inr False) None started))"

text \<open>The client disconnects at that moment, then the pump executes line 66.\<close>

definition raced :: world where
  "raced = pump_step ''s'' 0 (L66 None) EOF (Inr False) None
             (snd (handle_disconnect ''s'' dead_env at_L66))"

text \<open>
  Child 0 has exited and its pump has seen \<^verbatim>\<open>EOF\<close>, but has not yet run its \<^verbatim>\<open>finally\<close>
  block, when the client starts a second download: the entry is stale, child 1 is
  spawned and registered.
\<close>

definition restarted :: world where
  "restarted = snd (handle_start_download ''s'' [''url'' \<mapsto> ''v''] (Inr False) Spawned
                 (pump_step ''s'' 0 L38 EOF (Inr False) None started))"

text \<open>
  The pump of child 0 then runs its \<^verbatim>\<open>finally\<close> block: the child is dead (line 61), the
  session is in the dictionary (line 64), the entry is deleted (line 66) and
  \<^verbatim>\<open>download_complete\<close> is sent (line 68).
\<close>

definition stale_cleanup :: world where
  "stale_cleanup = pump_step ''s'' 0 (L68 None) EOF (Inr False) None
                     (pump_step ''s'' 0 (L66 None) EOF (Inr False) None
                       (pump_step ''s'' 0 (L64 None) EOF (Inr False) None
                         (pump_step ''s'' 0 (L61 None) EOF (Inr False) None restarted)))"

text \<open>
  The pump of child 1 then meets a timeout and finds child 1 alive (line 43): child 1
  runs, and the session has no entry.
\<close>

definition unregistered :: world where
  "unregistered = pump_step ''s'' 1 L38 (TIMEOUT (Inr True)) (Inr False) None stale_cleanup"

section \<open>Invariants of the reachable worlds\<close>

fun past_del :: "pc \<Rightarrow> bool" where
  "past_del (L68 x) = True"
| "past_del (Finished x) = True"
| "past_del c = False"

text \<open>
  Every thread belongs to a child that was created, and an entry of the dictionary
  points to a child of that session whose pump has neither reached line 68 nor finished.
\<close>

definition consistent :: "world \<Rightarrow> bool" where
  "consistent w =
     ((\<forall>p x. threads w p = Some x \<longrightarrow> p < next_child w) \<and>
      (\<forall>sid p. child_processes w sid = Some p \<longrightarrow>
         (\<exists>c. threads w p = Some (sid, c) \<and> \<not> past_del c)))"

text \<open>The pumps of a session whose \<^verbatim>\<open>finally\<close> block ran to its end.\<close>

definition finished :: "world \<Rightarrow> sid \<Rightarrow> pid set" where
  "finished w sid = {p. \<exists>x. threads w p = Some (sid, Finished x)}"

definition counted :: "world \<Rightarrow> bool" where
  "counted w = (\<forall>sid. completions sid (trace w) = card (finished w sid))"

section \<open>Basic facts\<close>

lemma log_fields [simp]:
  "child_processes (log e w) = child_processes w"
  "threads (log e w) = threads w"
  "next_child (log e w) = next_child w"
  "trace (log e w) = trace w @ [e]"
  by (simp_all add: log_def)

lemma emit_fields [simp]:
  "child_processes (emit sid ev w) = child_processes w"
  "threads (emit sid ev w) = threads w"
  "next_child (emit sid ev w) = next_child w"
  "trace (emit sid ev w) = trace w @ [Emit sid ev]"
  by (simp_all add: emit_def)

lemma set_pc_fields [simp]:
  "child_processes (set_pc p sid c w) = child_processes w"
  "threads (set_pc p sid c w) = (threads w)(p \<mapsto> (sid, c))"
  "next_child (set_pc p sid c w) = next_child w"
  "trace (set_pc p sid c w) = trace w"
  by (simp_all add: set_pc_def)

lemma reg_set_fields [simp]:
  "child_processes (reg_set sid p w) = (child_processes w)(sid \<mapsto> p)"
  "threads (reg_set sid p w) = threads w"
  "next_child (reg_set sid p w) = next_child w"
  "trace (reg_set sid p w) = trace w @ [RegSet sid p]"
  by (simp_all add: reg_set_def)

lemma isalive_fields [simp]:
  "fst (isalive p r w) = r"
  "child_processes (snd (isalive p r w)) = child_processes w"
  "threads (snd (isalive p r w)) = threads w"
  "next_child (snd (isalive p r w)) = next_child w"
  "trace (snd (isalive p r w)) =
     trace w @ [case r of Inl e \<Rightarrow> AliveRaised p e | Inr b \<Rightarrow> Alive p b]"
  by (simp_all add: isalive_def split: sum.splits)

lemma since_append [simp]: "trace w' = trace w @ xs \<Longrightarrow> since w w' = xs"
  by (simp add: since_def)

lemma started_fields:
  "child_processes started = [''s'' \<mapsto> 0]"
  "threads started = [0 \<mapsto> (''s'', L38)]"
  "next_child started = Suc 0"
  "trace started =
     [JoinRoom ''s'', Spawn 0 (gamdl_command_args ''u''), RegSet ''s'' 0, ThreadStart ''s'' 0,
      Emit ''s'' (info_message ''gamdl process started for u. Waiting for output...'')]"
  by (simp_all add: started_def handle_start_download_def start_body_def handle_connect_def
      initial_def Let_def)

lemma reachable_started: "reachable started"
  unfolding started_def by (rule reachable.start [OF reachable.connect [OF reachable.init]])

lemma reg_pop_fields [simp]:
  "fst (reg_pop sid w) = child_processes w sid"
  "child_processes (snd (reg_pop sid w)) = (child_processes w)(sid := None)"
  "threads (snd (reg_pop sid w)) = threads w"
  "next_child (snd (reg_pop sid w)) = next_child w"
  by (auto simp add: reg_pop_def split: option.splits)

lemma if_alive_call_fields [simp]:
  "child_processes (snd (if_alive_call p r c exc w)) = child_processes w"
  "threads (snd (if_alive_call p r c exc w)) = threads w"
  "next_child (snd (if_alive_call p r c exc w)) = next_child w"
  by (simp_all add: if_alive_call_def call_def isalive_def split: option.splits sum.splits)

lemma if_alive_call_trace:
  "trace (snd (if_alive_call p r c exc w)) =
     trace w @ (case r of Inl e \<Rightarrow> [AliveRaised p e]
                | Inr b \<Rightarrow> Alive p b # (if b then [Call p c] else []))"
  by (simp add: if_alive_call_def call_def isalive_def split: option.splits sum.splits)

lemma terminate_steps_fields [simp]:
  "child_processes (snd (terminate_steps p env w)) = child_processes w"
  "threads (snd (terminate_steps p env w)) = threads w"
  "next_child (snd (terminate_steps p env w)) = next_child w"
  by (simp_all add: terminate_steps_def case_prod_unfold split: sum.splits)

lemma terminate_steps_trace_ex: "\<exists>xs. trace (snd (terminate_steps p env w)) = trace w @ xs"
  by (simp add: terminate_steps_def case_prod_unfold if_alive_call_trace split: sum.splits)

lemma handle_disconnect_fields [simp]:
  "child_processes (snd (handle_disconnect sid env w)) = (child_processes w)(sid := None)"
  "threads (snd (handle_disconnect sid env w)) = threads w"
  "next_child (snd (handle_disconnect sid env w)) = next_child w"
  by (simp_all add: handle_disconnect_def Let_def case_prod_unfold split: option.splits sum.splits)

lemma cleanup_entry_fields [simp]:
  "child_processes (cleanup_entry sid w) = (child_processes w)(sid := None)"
  "threads (cleanup_entry sid w) = threads w"
  "next_child (cleanup_entry sid w) = next_child w"
  "trace (cleanup_entry sid w) = trace w @ (if sid \<in> dom (child_processes w) then [RegDel sid] else [])"
  by (auto simp add: cleanup_entry_def reg_del_def)

lemma loop_iter_fields [simp]:
  "child_processes (snd (loop_iter sid p ev w)) = child_processes w"
  "threads (snd (loop_iter sid p ev w)) = threads w"
  "next_child (snd (loop_iter sid p ev w)) = next_child w"
  by (cases ev; simp add: Let_def case_prod_unfold split: sum.splits)+

lemma pump_loop_same:
  "child_processes (snd (pump_loop sid p evs w)) = child_processes w \<and>
   threads (snd (pump_loop sid p evs w)) = threads w \<and>
   next_child (snd (pump_loop sid p evs w)) = next_child w"
proof (induction evs arbitrary: w)
  case Nil
  show ?case by simp
next
  case (Cons ev evs)
  obtain f w1 where li: "loop_iter sid p ev w = (f, w1)" by (cases "loop_iter sid p ev w")
  then have f: "child_processes w1 = child_processes w" "threads w1 = threads w"
    "next_child w1 = next_child w"
    using loop_iter_fields [of sid p ev w] by simp_all
  show ?case using Cons.IH [of w1] li f by (cases f) simp_all
qed

lemma pump_loop_fields [simp]:
  "child_processes (snd (pump_loop sid p evs w)) = child_processes w"
  "threads (snd (pump_loop sid p evs w)) = threads w"
  "next_child (snd (pump_loop sid p evs w)) = next_child w"
  using pump_loop_same [of sid p evs w] by simp_all

lemma outputs_append [simp]: "outputs (xs @ ys) = outputs xs @ outputs ys"
  by (induction xs rule: outputs.induct) simp_all

lemma reads_append [simp]: "reads p (xs @ ys) = reads p xs @ reads p ys"
  by (induction xs rule: reads.induct) simp_all

lemma completions_append [simp]:
  "completions sid (xs @ ys) = completions sid xs + completions sid ys"
  by (induction xs rule: completions.induct) simp_all

section \<open>The invariants hold in every reachable world\<close>

lemma consistent_initial: "consistent initial"
  by (simp add: consistent_def initial_def)

lemma consistent_cong:
  "child_processes w' = child_processes w \<Longrightarrow> threads w' = threads w \<Longrightarrow>
   next_child w' = next_child w \<Longrightarrow> consistent w' = consistent w"
  by (simp add: consistent_def)

lemma consistent_trace [simp]:
  "consistent (log e w) = consistent w"
  "consistent (emit sid ev w) = consistent w"
  "consistent (snd (isalive p r w)) = consistent w"
  by (simp_all add: consistent_def)

lemma consistent_connect: "consistent w \<Longrightarrow> consistent (handle_connect sid w)"
  by (simp add: handle_connect_def)

lemma consistent_disconnect: "consistent w \<Longrightarrow> consistent (snd (handle_disconnect sid env w))"
  by (simp add: consistent_def)

lemma consistent_cleanup_entry: "consistent w \<Longrightarrow> consistent (cleanup_entry sid w)"
  by (simp add: consistent_def)

lemma consistent_start_body: "consistent w \<Longrightarrow> consistent (start_body sid data_dict sp w)"
proof -
  assume c: "consistent w"
  have sp: "consistent (set_pc (next_child w) sid L38
               (reg_set sid (next_child w) (log e (w\<lparr>next_child := Suc (next_child w)\<rparr>))))" for e
    using c by (fastforce simp add: consistent_def)
  show ?thesis
    using c sp by (simp add: start_body_def Let_def consistent_cleanup_entry
        split: option.splits spawn_result.splits)
qed

lemma consistent_start:
  "consistent w \<Longrightarrow> consistent (snd (handle_start_download sid data_dict alive100 sp w))"
  by (simp add: handle_start_download_def case_prod_unfold consistent_start_body
      split: option.splits sum.splits)

lemma consistent_input:
  "consistent w \<Longrightarrow> consistent (snd (handle_send_input sid data_dict alive171 send_exc w))"
  by (simp add: handle_send_input_def case_prod_unfold call_def split: option.splits sum.splits)

lemma consistent_set_pc:
  assumes "consistent w" and "threads w p = Some (sid, c)"
    and "past_del c' \<Longrightarrow> child_processes w sid \<noteq> Some p"
  shows "consistent (set_pc p sid c' w)"
proof -
  have own: "child_processes w s = Some p \<Longrightarrow> s = sid" for s
    using assms(1,2) by (fastforce simp add: consistent_def)
  have b: "threads w q = Some x \<Longrightarrow> q < next_child w" for q x
    using assms(1) by (simp add: consistent_def)
  have e: "child_processes w s = Some q \<Longrightarrow> \<exists>d. threads w q = Some (s, d) \<and> \<not> past_del d" for s q
    using assms(1) by (simp add: consistent_def)
  show ?thesis
    unfolding consistent_def
  proof (intro conjI allI impI)
    fix q x assume "threads (set_pc p sid c' w) q = Some x"
    then show "q < next_child (set_pc p sid c' w)"
      using b [of q x] b [OF assms(2)] by (cases "q = p") simp_all
  next
    fix s q assume r: "child_processes (set_pc p sid c' w) s = Some q"
    show "\<exists>d. threads (set_pc p sid c' w) q = Some (s, d) \<and> \<not> past_del d"
    proof (cases "q = p")
      case True
      with r own have "s = sid" by simp
      with r True assms(3) show ?thesis by auto
    next
      case False
      with r e [of s q] show ?thesis by simp
    qed
  qed
qed

lemma consistent_pump:
  assumes "consistent w" "threads w p = Some (sid, c)"
  shows "consistent (pump_step sid p c ev r close_exc w)"
proof (cases c)
  case L38
  obtain f w1 where li: "loop_iter sid p ev w = (f, w1)" by (cases "loop_iter sid p ev w")
  then have f: "child_processes w1 = child_processes w" "threads w1 = threads w" "next_child w1 = next_child w"
    using loop_iter_fields [of sid p ev w] by simp_all
  then have "consistent w1" using assms(1) consistent_cong by blast
  then have "consistent (set_pc p sid c' w1)" if "\<not> past_del c'" for c'
    using consistent_set_pc [of w1 p sid c c'] assms(2) f that by auto
  then show ?thesis using L38 li by (cases f) simp_all
next
  case (L61 x)
  obtain res w1 where fc: "fin_close p r close_exc w = (res, w1)" by (cases "fin_close p r close_exc w")
  then have f: "child_processes w1 = child_processes w" "threads w1 = threads w" "next_child w1 = next_child w"
    using if_alive_call_fields [of p r Close close_exc w] by (simp_all add: fin_close_def)
  then have "consistent w1" using assms(1) consistent_cong by blast
  then have "consistent (set_pc p sid c' w1)" if "\<not> past_del c'" for c'
    using consistent_set_pc [of w1 p sid c c'] assms(2) f that by auto
  then show ?thesis using L61 fc by (cases res) simp_all
next
  case (L64 x)
  show ?thesis
    using assms L64 consistent_set_pc [of w p sid c "L66 x"] consistent_set_pc [of w p sid c "L68 x"]
    by (auto simp add: fin_check_def)
next
  case (L66 x)
  let ?w1 = "w\<lparr>child_processes := (child_processes w)(sid := None)\<rparr>"
  have "consistent ?w1" using assms(1) by (simp add: consistent_def)
  then have "consistent (log (RegDel sid) ?w1)" by simp
  then have "consistent (set_pc p sid (L68 x) (log (RegDel sid) ?w1))"
    using consistent_set_pc [of "log (RegDel sid) ?w1" p sid c "L68 x"] assms(2) by simp
  moreover have "consistent (set_pc p sid (Raised e) w)" for e
    using consistent_set_pc [of w p sid c "Raised e"] assms by simp
  ultimately show ?thesis using L66 by (simp add: fin_del_def reg_del_def)
next
  case (L68 x)
  have "child_processes w sid \<noteq> Some p" using assms L68 by (fastforce simp add: consistent_def)
  then have "consistent (set_pc p sid (Finished x) (fin_notify sid w))"
    using consistent_set_pc [of "fin_notify sid w" p sid c "Finished x"] assms
    by (simp add: fin_notify_def)
  then show ?thesis using L68 by simp
next
  case (Finished x)
  show ?thesis using assms Finished by simp
next
  case (Raised e)
  show ?thesis using assms Raised by simp
qed

lemma reachable_consistent: "reachable w \<Longrightarrow> consistent w"
proof (induction rule: reachable.induct)
  case init
  show ?case by (rule consistent_initial)
next
  case (connect w sid)
  then show ?case by (simp add: consistent_connect)
next
  case (disconnect w sid env)
  then show ?case by (simp add: consistent_disconnect)
next
  case (start w sid data_dict alive100 sp)
  then show ?case by (simp add: consistent_start)
next
  case (input w sid data_dict alive171 send_exc)
  then show ?case by (simp add: consistent_input)
next
  case (pump w p sid c ev r close_exc)
  then show ?case by (simp add: consistent_pump)
qed

lemma finished_cong: "threads w' = threads w \<Longrightarrow> finished w' sid = finished w sid"
  by (simp add: finished_def)

lemma finished_set_pc:
  "threads w p = Some (s, c) \<Longrightarrow> \<not> is_finished c \<Longrightarrow> \<not> is_finished c' \<Longrightarrow>
   finished (set_pc p s c' w) sid = finished w sid"
  by (auto simp add: finished_def)

lemma completions_disconnect:
  "completions s (trace (snd (handle_disconnect sid env w))) = completions s (trace w)"
  by (simp add: handle_disconnect_def reg_pop_def terminate_steps_def if_alive_call_def call_def
      isalive_def Let_def split: option.splits sum.splits)

lemma completions_start_body:
  "completions s (trace (start_body sid data_dict sp w)) = completions s (trace w)"
  by (simp add: start_body_def Let_def split: option.splits spawn_result.splits)

lemma completions_start:
  "completions s (trace (snd (handle_start_download sid data_dict alive100 sp w))) = completions s (trace w)"
  by (simp add: handle_start_download_def completions_start_body isalive_def
      split: option.splits sum.splits)

lemma completions_input:
  "completions s (trace (snd (handle_send_input sid data_dict alive171 send_exc w))) = completions s (trace w)"
  by (simp add: handle_send_input_def call_def isalive_def split: option.splits sum.splits)

lemma completions_loop_iter:
  "completions s (trace (snd (loop_iter sid p ev w))) = completions s (trace w)"
  by (cases ev) (simp_all add: Let_def isalive_def split: sum.splits)

lemma threads_start:
  "threads (snd (handle_start_download sid data_dict alive100 sp w)) = threads w \<or>
   threads (snd (handle_start_download sid data_dict alive100 sp w)) = (threads w)(next_child w \<mapsto> (sid, L38))"
  by (simp add: handle_start_download_def start_body_def Let_def isalive_def
      split: option.splits spawn_result.splits sum.splits)

lemma threads_input [simp]:
  "threads (snd (handle_send_input sid data_dict alive171 send_exc w)) = threads w"
  by (simp add: handle_send_input_def call_def isalive_def split: option.splits sum.splits)

lemma counted_pump:
  assumes "counted w" and "consistent w" and "threads w p = Some (sid, c)"
  shows "counted (pump_step sid p c ev r close_exc w)"
proof -
  have keep: "counted w'" if "\<And>s. completions s (trace w') = completions s (trace w)"
    "\<And>s. finished w' s = finished w s" for w'
    using assms(1) that by (simp add: counted_def)
  show ?thesis
  proof (cases c)
    case L38
    obtain f w1 where li: "loop_iter sid p ev w = (f, w1)" by (cases "loop_iter sid p ev w")
    then have f: "threads w1 = threads w" "\<And>s. completions s (trace w1) = completions s (trace w)"
      using loop_iter_fields(2) [of sid p ev w] completions_loop_iter [of _ sid p ev w] by simp_all
    have "finished (set_pc p sid c' w1) s = finished w s" if "\<not> is_finished c'" for c' s
      using finished_set_pc [of w1 p sid c c' s] finished_cong [of w1 w s] f(1) assms(3) L38 that by simp
    then show ?thesis using L38 li f(2) by (cases f) (auto intro!: keep)
  next
    case (L61 x)
    obtain res w1 where fc: "fin_close p r close_exc w = (res, w1)" by (cases "fin_close p r close_exc w")
    then have f: "threads w1 = threads w" "\<And>s. completions s (trace w1) = completions s (trace w)"
      using if_alive_call_fields(2) [of p r Close close_exc w]
        if_alive_call_trace [of p r Close close_exc w]
      by (simp_all add: fin_close_def split: sum.splits)
    have "finished (set_pc p sid c' w1) s = finished w s" if "\<not> is_finished c'" for c' s
      using finished_set_pc [of w1 p sid c c' s] finished_cong [of w1 w s] f(1) assms(3) L61 that by simp
    then show ?thesis using L61 fc f(2) by (cases res) (auto intro!: keep)
  next
    case (L64 x)
    have "finished (set_pc p sid c' w) s = finished w s" if "\<not> is_finished c'" for c' s
      using finished_set_pc [of w p sid c c' s] assms(3) L64 that by simp
    then show ?thesis using L64 by (auto intro!: keep)
  next
    case (L66 x)
    have "finished (set_pc p sid c' w1) s = finished w s" if "\<not> is_finished c'" "threads w1 = threads w" for c' s w1
      using finished_set_pc [of w1 p sid c c' s] finished_cong [of w1 w s] assms(3) L66 that by simp
    then show ?thesis using L66 by (auto simp add: fin_del_def reg_del_def intro!: keep)
  next
    case (L68 x)
    have notin: "p \<notin> finished w sid" using assms(3) L68 by (simp add: finished_def)
    have fin: "finite (finished w sid)"
    proof (rule finite_subset)
      show "finished w sid \<subseteq> {..<next_child w}"
        using assms(2) by (auto simp add: finished_def consistent_def)
    qed simp
    have same: "finished (set_pc p sid (Finished x) (fin_notify sid w)) s = finished w s" if "s \<noteq> sid" for s
      using that assms(3) by (auto simp add: finished_def fin_notify_def)
    have ins: "finished (set_pc p sid (Finished x) (fin_notify sid w)) sid = insert p (finished w sid)"
      by (auto simp add: finished_def fin_notify_def)
    show ?thesis
      unfolding counted_def
    proof
      fix s
      show "completions s (trace (pump_step sid p c ev r close_exc w)) =
            card (finished (pump_step sid p c ev r close_exc w) s)"
      proof (cases "s = sid")
        case True
        then show ?thesis using L68 ins notin fin assms(1)
          by (simp add: counted_def fin_notify_def)
      next
        case False
        then show ?thesis using L68 same [of s] assms(1)
          by (simp add: counted_def fin_notify_def)
      qed
    qed
  next
    case (Finished x)
    then show ?thesis using assms(1) by simp
  next
    case (Raised e)
    then show ?thesis using assms(1) by simp
  qed
qed

lemma reachable_counted: "reachable w \<Longrightarrow> counted w"
proof (induction rule: reachable.induct)
  case init
  show ?case by (simp add: counted_def initial_def finished_def)
next
  case (connect w sid)
  then show ?case by (simp add: counted_def handle_connect_def finished_def)
next
  case (disconnect w sid env)
  then show ?case by (simp add: counted_def completions_disconnect finished_def)
next
  case (start w sid data_dict alive100 sp)
  have "threads w (next_child w) = None"
  proof (cases "threads w (next_child w)")
    case None
    then show ?thesis .
  next
    case (Some x)
    then have "next_child w < next_child w"
      using reachable_consistent [OF start.hyps] unfolding consistent_def by blast
    then show ?thesis by simp
  qed
  then have "finished (snd (handle_start_download sid data_dict alive100 sp w)) s = finished w s" for s
    using threads_start [of sid data_dict alive100 sp w]
    by (auto simp add: finished_def split: if_splits)
  then show ?case using start.IH by (simp add: counted_def completions_start)
next
  case (input w sid data_dict alive171 send_exc)
  then show ?case by (simp add: counted_def completions_input finished_def)
next
  case (pump w p sid c ev r close_exc)
  then show ?case using reachable_consistent counted_pump by blast
qed

text \<open>
  The \<^verbatim>\<open>download_complete\<close> messages sent to a session are as many as the pumps of that
  session whose \<^verbatim>\<open>finally\<close> block ran to its end: a pump sends at most one, and nothing
  else sends any.
\<close>

lemma completions_count_finished_pumps:
  "reachable w \<Longrightarrow> completions sid (trace w) = card {p. \<exists>x. threads w p = Some (sid, Finished x)}"
  using reachable_counted [of w] by (simp add: counted_def finished_def)

section \<open>Facts about the pump and about the worlds above\<close>

lemma finalize_no_raise:
  "finalize sid p (Inr alive) None w =
     (Inr (), fin_notify sid (cleanup_entry sid (snd (if_alive_call p (Inr alive) Close None w))))"
  by (auto simp add: finalize_def fin_close_def fin_check_def fin_del_def cleanup_entry_def
      if_alive_call_def isalive_def call_def reg_del_def)

lemma loop_iter_trace:
  "\<exists>xs. trace (snd (loop_iter sid p ev w)) = trace w @ xs \<and>
        outputs xs = map (Pair sid) (filter (\<lambda>s. s \<noteq> []) (reads p xs)) \<and>
        reads p xs = (case ev of Output bs s \<Rightarrow> [s] | _ \<Rightarrow> [])"
  by (cases ev) (simp_all add: Let_def isalive_def split: sum.splits)

lemma loop_iter_flow:
  "fst (loop_iter sid p ev w) =
     (case ev of
        Output bs s \<Rightarrow> Continue
      | TIMEOUT r \<Rightarrow> (case r of Inl e \<Rightarrow> Raise e | Inr b \<Rightarrow> if b then Continue else Break)
      | EOF \<Rightarrow> Break
      | ReadError e \<Rightarrow> Break)"
  by (cases ev) (simp_all add: Let_def isalive_def split: sum.splits)

lemma pump_loop_trace:
  "\<exists>xs. trace (snd (pump_loop sid p evs w)) = trace w @ xs \<and>
        outputs xs = map (Pair sid) (filter (\<lambda>s. s \<noteq> []) (texts_read evs)) \<and>
        reads p xs = texts_read evs"
proof (induction evs arbitrary: w)
  case Nil
  show ?case by simp
next
  case (Cons ev evs)
  obtain f w1 where li: "loop_iter sid p ev w = (f, w1)" by (cases "loop_iter sid p ev w")
  obtain xs where xs: "trace w1 = trace w @ xs"
    "outputs xs = map (Pair sid) (filter (\<lambda>s. s \<noteq> []) (reads p xs))"
    "reads p xs = (case ev of Output bs s \<Rightarrow> [s] | _ \<Rightarrow> [])"
    using loop_iter_trace [of sid p ev w] li by auto
  have fl: "f = (case ev of
        Output bs s \<Rightarrow> Continue
      | TIMEOUT r \<Rightarrow> (case r of Inl e \<Rightarrow> Raise e | Inr b \<Rightarrow> if b then Continue else Break)
      | EOF \<Rightarrow> Break
      | ReadError e \<Rightarrow> Break)"
    using loop_iter_flow [of sid p ev w] li by simp
  show ?case
  proof (cases f)
    case Continue
    obtain ys where ys: "trace (snd (pump_loop sid p evs w1)) = trace w1 @ ys"
      "outputs ys = map (Pair sid) (filter (\<lambda>s. s \<noteq> []) (texts_read evs))"
      "reads p ys = texts_read evs"
      using Cons.IH [of w1] by auto
    have t: "texts_read (ev # evs) = reads p xs @ texts_read evs"
      using fl Continue xs(3) by (cases ev) (auto split: sum.splits if_splits)
    have "trace (snd (pump_loop sid p (ev # evs) w)) = trace w @ (xs @ ys)"
      using li Continue xs(1) ys(1) by simp
    moreover have "outputs (xs @ ys) = map (Pair sid) (filter (\<lambda>s. s \<noteq> []) (texts_read (ev # evs)))"
      using xs(2) ys(2) t by simp
    moreover have "reads p (xs @ ys) = texts_read (ev # evs)"
      using ys(3) t by simp
    ultimately show ?thesis by blast
  next
    case Break
    have t: "texts_read (ev # evs) = []" "reads p xs = []"
      using fl Break xs(3) by (cases ev; auto split: sum.splits if_splits)+
    then show ?thesis using li Break xs by auto
  next
    case (Raise e)
    have t: "texts_read (ev # evs) = []" "reads p xs = []"
      using fl Raise xs(3) by (cases ev; auto split: sum.splits if_splits)+
    then show ?thesis using li Raise xs by auto
  qed
qed

lemma finalize_trace:
  "\<exists>xs. trace (snd (finalize sid p r close_exc w)) = trace w @ xs \<and> outputs xs = [] \<and> reads p xs = []"
  by (auto simp add: finalize_def fin_close_def fin_check_def fin_del_def fin_notify_def
      if_alive_call_def isalive_def call_def reg_del_def split: option.splits sum.splits)

lemma at_L66_fields:
  "child_processes at_L66 = [''s'' \<mapsto> 0]"
  "threads at_L66 = [0 \<mapsto> (''s'', L66 None)]"
  "trace at_L66 = trace started @
     [Emit ''s'' (info_message ''gamdl process finished (EOF).''), Alive 0 False]"
  by (simp_all add: at_L66_def started_fields fin_close_def if_alive_call_def isalive_def fin_check_def)

lemma reachable_at_L66: "reachable at_L66"
proof -
  let ?a = "pump_step ''s'' 0 L38 EOF (Inr False) None started"
  let ?b = "pump_step ''s'' 0 (L61 None) EOF (Inr False) None ?a"
  have "reachable ?a"
    by (rule reachable.pump [OF reachable_started]) (simp add: started_fields)
  then have "reachable ?b"
    by (rule reachable.pump) (simp add: started_fields)
  then show ?thesis
    unfolding at_L66_def
    by (rule reachable.pump) (simp add: started_fields fin_close_def if_alive_call_def isalive_def)
qed

lemma restarted_fields:
  "child_processes restarted ''s'' = Some (Suc 0)"
  "threads restarted 0 = Some (''s'', L61 None)"
  "threads restarted (Suc 0) = Some (''s'', L38)"
  "next_child restarted = 2"
  "trace restarted = trace started @
     [Emit ''s'' (info_message ''gamdl process finished (EOF).''), Alive 0 False,
      Spawn 1 (gamdl_command_args ''v''), RegSet ''s'' 1, ThreadStart ''s'' 1,
      Emit ''s'' (info_message ''gamdl process started for v. Waiting for output...'')]"
  by (simp add: restarted_def started_fields handle_start_download_def start_body_def
      isalive_def Let_def)+

lemma reachable_restarted: "reachable restarted"
proof -
  have "reachable (pump_step ''s'' 0 L38 EOF (Inr False) None started)"
    by (rule reachable.pump [OF reachable_started]) (simp add: started_fields)
  then show ?thesis unfolding restarted_def by (rule reachable.start)
qed

lemma stale_cleanup_fields:
  "child_processes stale_cleanup ''s'' = None"
  "threads stale_cleanup 0 = Some (''s'', Finished None)"
  "threads stale_cleanup (Suc 0) = Some (''s'', L38)"
  "next_child stale_cleanup = 2"
  "trace stale_cleanup = trace restarted @
     [Alive 0 False, RegDel ''s'',
      Emit ''s'' (download_complete ''Download process and cleanup finished.'')]"
  by (simp add: stale_cleanup_def restarted_fields fin_close_def if_alive_call_def isalive_def
      fin_check_def fin_del_def reg_del_def fin_notify_def domIff)+

lemma reachable_stale_cleanup: "reachable stale_cleanup"
proof -
  let ?a = "pump_step ''s'' 0 (L61 None) EOF (Inr False) None restarted"
  let ?b = "pump_step ''s'' 0 (L64 None) EOF (Inr False) None ?a"
  let ?c = "pump_step ''s'' 0 (L66 None) EOF (Inr False) None ?b"
  have a: "reachable ?a"
    by (rule reachable.pump [OF reachable_restarted]) (simp add: restarted_fields)
  have "threads ?a 0 = Some (''s'', L64 None)"
    by (simp add: fin_close_def if_alive_call_def isalive_def)
  with a have b: "reachable ?b" by (rule reachable.pump)
  have "threads ?b 0 = Some (''s'', L66 None)"
    by (simp add: fin_close_def if_alive_call_def isalive_def fin_check_def restarted_fields domIff)
  with b have c: "reachable ?c" by (rule reachable.pump)
  have "threads ?c 0 = Some (''s'', L68 None)"
    by (simp add: fin_close_def if_alive_call_def isalive_def fin_check_def fin_del_def
        reg_del_def restarted_fields domIff)
  with c show ?thesis unfolding stale_cleanup_def by (rule reachable.pump)
qed

lemma unregistered_fields:
  "child_processes unregistered ''s'' = None"
  "threads unregistered 0 = Some (''s'', Finished None)"
  "threads unregistered (Suc 0) = Some (''s'', L38)"
  "next_child unregistered = 2"
  "trace unregistered = trace stale_cleanup @ [Alive 1 True]"
  by (simp add: unregistered_def stale_cleanup_fields isalive_def)+

lemma reachable_unregistered: "reachable unregistered"
  unfolding unregistered_def
  by (rule reachable.pump [OF reachable_stale_cleanup]) (simp add: stale_cleanup_fields)

section \<open>The claims\<close>

subsection \<open>C1: one completion notification per process lifetime\<close>

text \<open>
  C1 says that every process lifetime, from spawn to cleanup, ends with exactly one
  \<^verbatim>\<open>download_complete\<close> sent to the session, also when a disconnect races with the
  pump. The code misses it in the following run: the pump of child 0 reads \<^verbatim>\<open>EOF\<close>,
  finds the child dead (line 61) and the session in the dictionary (line 64); the client
  disconnects and \<^verbatim>\<open>handle_disconnect\<close> pops the entry (line 83); the pump then executes
  \<^verbatim>\<open>del child_processes[sid]\<close> (line 66), which raises \<^verbatim>\<open>KeyError\<close> and leaves the
  \<^verbatim>\<open>finally\<close> block before line 68. The thread has ended and no \<^verbatim>\<open>download_complete\<close>
  was sent.
\<close>

theorem completion_lost_in_race:
  "reachable raced \<and> threads raced 0 = Some (''s'', Raised ''KeyError'') \<and>
   completions ''s'' (trace raced) = 0 \<and>
   trace raced = trace started @
     [Emit ''s'' (info_message ''gamdl process finished (EOF).''), Alive 0 False,
      RegDel ''s'', Alive 0 False, LeaveRoom ''s'']"
proof -
  let ?d = "snd (handle_disconnect ''s'' dead_env at_L66)"
  have d: "reachable ?d" by (rule reachable.disconnect [OF reachable_at_L66])
  have "threads ?d 0 = Some (''s'', L66 None)" by (simp add: at_L66_fields)
  with d have "reachable raced" unfolding raced_def by (rule reachable.pump)
  moreover have tr: "trace ?d = trace at_L66 @ [RegDel ''s'', Alive 0 False, LeaveRoom ''s'']"
    by (simp add: handle_disconnect_def reg_pop_def at_L66_fields dead_env_def isalive_def)
  moreover have "child_processes ?d ''s'' = None" by simp
  ultimately show ?thesis
    by (simp add: raced_def fin_del_def reg_del_def domIff at_L66_fields started_fields)
qed

subsection \<open>C2: an exception of close() during finalization\<close>

text \<open>
  C2 says that registry removal and the completion notification are still performed
  when closing the handle raises. In the code \<^verbatim>\<open>close()\<close> stands unguarded in the
  \<^verbatim>\<open>finally\<close> block: when the child is alive at line 61 and \<^verbatim>\<open>close()\<close> raises, the
  exception leaves the block, the world is left as it was but for the two calls, so the
  entry stays and nothing is sent. The second part evaluates the whole pump on a child
  whose read raised (an invalid byte for the decoder), that is still alive and cannot
  be closed.
\<close>

theorem close_failure_skips_cleanup:
  "finalize sid p (Inr True) (Some e) w =
     (Inl e, w\<lparr>trace := trace w @ [Alive p True, Call p Close]\<rparr>) \<and>
   fst (read_gamdl_output ''s'' 0 [ReadError ''invalid start byte''] (Inr True)
          (Some ''Could not terminate the child.'') started) =
     Some (Inl ''Could not terminate the child.'') \<and>
   child_processes (snd (read_gamdl_output ''s'' 0 [ReadError ''invalid start byte''] (Inr True)
          (Some ''Could not terminate the child.'') started)) ''s'' = Some 0 \<and>
   completions ''s'' (trace (snd (read_gamdl_output ''s'' 0 [ReadError ''invalid start byte''] (Inr True)
          (Some ''Could not terminate the child.'') started))) = 0"
  by (simp add: read_gamdl_output_def finalize_def fin_close_def if_alive_call_def isalive_def
      call_def log_def emit_def started_fields)

subsection \<open>C3: the dictionary and the processes awaiting cleanup\<close>

text \<open>
  C3 says that in every reachable state the dictionary has an entry for a session if and
  only if a process was spawned for it whose cleanup has not completed. The "if" part
  fails by design: \<^verbatim>\<open>handle_disconnect\<close> pops the entry first (line 83), while the pump
  of that child is still in its loop. After a start and a disconnect of session \<open>''s''\<close>
  the pump of child 0 is at line 38 and the dictionary has no entry.
\<close>

theorem registry_iff_pending_counterexample:
  "reachable disconnected \<and> cleanup_pending disconnected ''s'' \<and>
   threads disconnected 0 = Some (''s'', L38) \<and> child_processes disconnected ''s'' = None"
proof -
  have "reachable disconnected"
    unfolding disconnected_def by (rule reachable.disconnect [OF reachable_started])
  then show ?thesis
    by (simp add: disconnected_def cleanup_pending_def started_fields)
qed

text \<open>
  C3 as amended: in every reachable world, if the dictionary has an entry for a session,
  then the entry's child was spawned for that session and the pump bound to it has not
  finished its cleanup.
\<close>

theorem registry_entry_implies_cleanup_pending:
  assumes "reachable w" and "child_processes w sid = Some p"
  shows "(\<exists>c. threads w p = Some (sid, c) \<and> \<not> is_finished c) \<and> cleanup_pending w sid"
proof -
  have c: "consistent w" using assms(1) by (rule reachable_consistent)
  then obtain c where t: "threads w p = Some (sid, c)" "\<not> past_del c"
    using assms(2) by (fastforce simp add: consistent_def)
  then have nf: "\<not> is_finished c" by (cases c) simp_all
  have "p < next_child w" using c t by (simp add: consistent_def)
  then have "cleanup_pending w sid"
    using t nf by (auto simp add: cleanup_pending_def list_ex_iff intro!: bexI [of _ p])
  then show ?thesis using t nf by simp
qed

theorem registry_entry_implies_cleanup_pending_witness:
  "reachable started \<and> child_processes started ''s'' = Some 0 \<and>
   threads started 0 = Some (''s'', L38) \<and> cleanup_pending started ''s''"
  using registry_entry_implies_cleanup_pending [OF reachable_started, of "''s''" 0]
  by (simp add: started_fields reachable_started)

subsection \<open>C4: the finalization sequence of the pump\<close>

text \<open>
  C4 says that the finalization, if the process is still alive, calls \<^verbatim>\<open>terminate()\<close>
  and then \<^verbatim>\<open>close()\<close>. The code calls \<^verbatim>\<open>close()\<close> only: on a child whose read raised
  and that is alive at line 61, the effects of the pump are the ones below, and no
  \<^verbatim>\<open>terminate\<close> is among all the effects on child 0.
\<close>

theorem finalization_without_terminate_counterexample:
  "since started (snd (read_gamdl_output ''s'' 0 [ReadError ''invalid start byte''] (Inr True) None started)) =
     [Emit ''s'' (error_message ''Error reading gamdl output for SID s: invalid start byte''),
      Alive 0 True, Call 0 Close, RegDel ''s'',
      Emit ''s'' (download_complete ''Download process and cleanup finished.'')] \<and>
   Call 0 (Terminate False) \<notin>
     set (trace (snd (read_gamdl_output ''s'' 0 [ReadError ''invalid start byte''] (Inr True) None started))) \<and>
   Call 0 (Terminate True) \<notin>
     set (trace (snd (read_gamdl_output ''s'' 0 [ReadError ''invalid start byte''] (Inr True) None started)))"
proof -
  have tr: "trace (snd (read_gamdl_output ''s'' 0 [ReadError ''invalid start byte''] (Inr True) None started)) =
     trace started @
     [Emit ''s'' (error_message ''Error reading gamdl output for SID s: invalid start byte''),
      Alive 0 True, Call 0 Close, RegDel ''s'',
      Emit ''s'' (download_complete ''Download process and cleanup finished.'')]"
    by (simp add: read_gamdl_output_def finalize_def fin_close_def fin_check_def fin_del_def
        fin_notify_def if_alive_call_def isalive_def call_def reg_del_def started_fields)
  show ?thesis using since_append [OF tr] by (simp add: tr started_fields)
qed

text \<open>
  C4 as amended: when the loop of the pump ends by a \<^verbatim>\<open>break\<close> (a read gave \<^verbatim>\<open>EOF\<close> or
  another exception, or a timeout after which the child was found dead), and the
  \<^verbatim>\<open>finally\<close> block then runs with no step of another thread in between, with
  \<^verbatim>\<open>isalive()\<close> answering and \<^verbatim>\<open>close()\<close> returning normally, the block is this one
  sequence: it asks \<^verbatim>\<open>isalive()\<close>; if the process is alive it calls \<^verbatim>\<open>close()\<close> (no
  \<^verbatim>\<open>terminate()\<close>); it then removes the session from the dictionary if present; it then
  sends \<^verbatim>\<open>download_complete\<close>; and the function returns. What happens when \<^verbatim>\<open>isalive()\<close>
  or \<^verbatim>\<open>close()\<close> raises, or when another thread removes the entry between lines 64 and
  66, is the matter of C1 and C2 and is not part of this statement.
\<close>

theorem finalization_sequence:
  assumes "fst (pump_loop sid p evs w) = Break"
  shows "fst (read_gamdl_output sid p evs (Inr alive) None w) = Some (Inr ()) \<and>
         since (snd (pump_loop sid p evs w)) (snd (read_gamdl_output sid p evs (Inr alive) None w)) =
           [Alive p alive] @ (if alive then [Call p Close] else []) @
           (if sid \<in> dom (child_processes w) then [RegDel sid] else []) @
           [Emit sid (download_complete ''Download process and cleanup finished.'')] \<and>
         child_processes (snd (read_gamdl_output sid p evs (Inr alive) None w)) =
           (child_processes w)(sid := None)"
proof -
  obtain f w1 where pl: "pump_loop sid p evs w = (f, w1)" by (cases "pump_loop sid p evs w")
  with assms have b: "f = Break" by simp
  have f: "child_processes w1 = child_processes w"
    using pl pump_loop_fields(1) [of sid p evs w] by simp
  have rg: "read_gamdl_output sid p evs (Inr alive) None w =
     (Some (Inr ()), fin_notify sid (cleanup_entry sid (snd (if_alive_call p (Inr alive) Close None w1))))"
    using pl b by (simp add: read_gamdl_output_def finalize_no_raise)
  have tr: "trace (fin_notify sid (cleanup_entry sid (snd (if_alive_call p (Inr alive) Close None w1)))) =
     trace w1 @ ([Alive p alive] @ (if alive then [Call p Close] else []) @
           (if sid \<in> dom (child_processes w) then [RegDel sid] else []) @
           [Emit sid (download_complete ''Download process and cleanup finished.'')])"
    using f by (simp add: fin_notify_def if_alive_call_trace)
  show ?thesis using rg pl f since_append [OF tr] by (simp add: fin_notify_def)
qed

theorem finalization_sequence_witness:
  "fst (pump_loop ''s'' 0 [Output ''x'' ''x'', TIMEOUT (Inr True), ReadError ''e''] started) = Break \<and>
   fst (read_gamdl_output ''s'' 0 [Output ''x'' ''x'', TIMEOUT (Inr True), ReadError ''e''] (Inr True) None started) =
     Some (Inr ()) \<and>
   since (snd (pump_loop ''s'' 0 [Output ''x'' ''x'', TIMEOUT (Inr True), ReadError ''e''] started))
         (snd (read_gamdl_output ''s'' 0 [Output ''x'' ''x'', TIMEOUT (Inr True), ReadError ''e''] (Inr True) None started)) =
     [Alive 0 True, Call 0 Close, RegDel ''s'',
      Emit ''s'' (download_complete ''Download process and cleanup finished.'')] \<and>
   child_processes (snd (read_gamdl_output ''s'' 0 [Output ''x'' ''x'', TIMEOUT (Inr True), ReadError ''e''] (Inr True) None started)) ''s'' = None"
  using finalization_sequence [of "''s''" 0 "[Output ''x'' ''x'', TIMEOUT (Inr True), ReadError ''e'']" started True]
  by (simp add: started_fields isalive_def)

subsection \<open>C5: a second start while a process of the session runs\<close>

text \<open>
  C5 says that every start-request arriving while a live process exists for the session
  is rejected. The handler looks for the process in the dictionary only (line 100), and
  the pump deletes the session's entry whatever child it holds (lines 64--66). So, in
  the run below, the request is accepted while a process of the session runs. Child 0
  exits and its pump sees \<^verbatim>\<open>EOF\<close>; before that pump runs its \<^verbatim>\<open>finally\<close> block the client
  starts again, which is accepted over the stale entry and registers child 1; the pump
  of child 0 then deletes the entry, which is the one of child 1. Child 1 runs (its
  pump finds it alive at line 43), the session has no entry, and a further
  start-request is accepted whatever \<^verbatim>\<open>isalive()\<close> would answer: child 2 is spawned
  beside child 1 and no \<^verbatim>\<open>error_message\<close> is sent.
\<close>

theorem second_start_accepted_beside_running_child:
  "reachable unregistered \<and>
   threads unregistered 1 = Some (''s'', L38) \<and>
   last (trace unregistered) = Alive 1 True \<and>
   child_processes unregistered ''s'' = None \<and>
   fst (handle_start_download ''s'' [''url'' \<mapsto> ''x''] alive100 Spawned unregistered) = Inr () \<and>
   child_processes (snd (handle_start_download ''s'' [''url'' \<mapsto> ''x''] alive100 Spawned unregistered)) ''s'' =
     Some 2 \<and>
   threads (snd (handle_start_download ''s'' [''url'' \<mapsto> ''x''] alive100 Spawned unregistered)) 1 =
     Some (''s'', L38) \<and>
   threads (snd (handle_start_download ''s'' [''url'' \<mapsto> ''x''] alive100 Spawned unregistered)) 2 =
     Some (''s'', L38) \<and>
   since unregistered (snd (handle_start_download ''s'' [''url'' \<mapsto> ''x''] alive100 Spawned unregistered)) =
     [Spawn 2 (gamdl_command_args ''x''), RegSet ''s'' 2, ThreadStart ''s'' 2,
      Emit ''s'' (info_message ''gamdl process started for x. Waiting for output...'')]"
proof -
  have tr: "trace (snd (handle_start_download ''s'' [''url'' \<mapsto> ''x''] alive100 Spawned unregistered)) =
     trace unregistered @
     [Spawn 2 (gamdl_command_args ''x''), RegSet ''s'' 2, ThreadStart ''s'' 2,
      Emit ''s'' (info_message ''gamdl process started for x. Waiting for output...'')]"
    by (simp add: handle_start_download_def start_body_def unregistered_fields Let_def)
  show ?thesis
    using reachable_unregistered since_append [OF tr]
    by (simp add: handle_start_download_def start_body_def unregistered_fields Let_def)
qed

subsection \<open>C6: graduated termination on disconnect\<close>

text \<open>
  C6 says that on a disconnect with a live process the handler sends end-of-input,
  then, if the process is still alive, the graceful termination, then, if still alive,
  the forced one. The three steps stand in one \<^verbatim>\<open>try\<close> (lines 86--92): when
  \<^verbatim>\<open>sendeof()\<close> raises, the \<^verbatim>\<open>except\<close> of line 93 ends the sequence, and a process that
  would answer alive to every query gets neither of the two \<^verbatim>\<open>terminate\<close> calls.
\<close>

theorem escalation_cut_by_exception_counterexample:
  "alive88 raising_env = Inr True \<and> alive90 raising_env = Inr True \<and> alive92 raising_env = Inr True \<and>
   since started (snd (handle_disconnect ''s'' raising_env started)) =
     [RegDel ''s'', Alive 0 True, Alive 0 True, Call 0 SendEof, LeaveRoom ''s''] \<and>
   Call 0 (Terminate False) \<notin> set (trace (snd (handle_disconnect ''s'' raising_env started))) \<and>
   Call 0 (Terminate True) \<notin> set (trace (snd (handle_disconnect ''s'' raising_env started)))"
proof -
  have tr: "trace (snd (handle_disconnect ''s'' raising_env started)) = trace started @
     [RegDel ''s'', Alive 0 True, Alive 0 True, Call 0 SendEof, LeaveRoom ''s'']"
    by (simp add: handle_disconnect_def reg_pop_def terminate_steps_def if_alive_call_def
        isalive_def call_def raising_env_def started_fields)
  have e: "alive88 raising_env = Inr True" "alive90 raising_env = Inr True"
    "alive92 raising_env = Inr True"
    by (simp_all add: raising_env_def)
  show ?thesis using since_append [OF tr] e by (simp add: tr started_fields)
qed

text \<open>
  C6 as amended: on a disconnect of a session whose dictionary entry holds a process,
  with the \<^verbatim>\<open>isalive()\<close> of line 84 answering, the handler returns normally and does
  exactly this, in this order. It removes the entry and asks \<^verbatim>\<open>isalive()\<close>; if the
  process is dead it does nothing more to it (no signal, no pause). If it is alive, it
  asks again and sends end-of-input only if alive, pauses, asks again and calls
  \<^verbatim>\<open>terminate(force=False)\<close> only if alive, pauses, asks again and calls
  \<^verbatim>\<open>terminate(force=True)\<close> only if alive. The first of these queries and calls that
  raises ends the sequence. The handler ends by leaving the room.
\<close>

theorem disconnect_graduated_termination:
  assumes "child_processes w sid = Some p" and "alive84 env = Inr a84"
  shows "fst (handle_disconnect sid env w) = Inr () \<and>
   since w (snd (handle_disconnect sid env w)) =
     [RegDel sid, Alive p a84] @
     (if a84
      then (case alive88 env of
              Inl e \<Rightarrow> [AliveRaised p e]
            | Inr a88 \<Rightarrow>
                [Alive p a88] @ (if a88 then [Call p SendEof] else []) @
                (if a88 \<and> raise88 env \<noteq> None then []
                 else [Sleep] @
                   (case alive90 env of
                      Inl e \<Rightarrow> [AliveRaised p e]
                    | Inr a90 \<Rightarrow>
                        [Alive p a90] @ (if a90 then [Call p (Terminate False)] else []) @
                        (if a90 \<and> raise90 env \<noteq> None then []
                         else [Sleep] @
                           (case alive92 env of
                              Inl e \<Rightarrow> [AliveRaised p e]
                            | Inr a92 \<Rightarrow>
                                [Alive p a92] @ (if a92 then [Call p (Terminate True)] else []))))))
      else []) @
     [LeaveRoom sid]"
proof -
  have r: "fst (handle_disconnect sid env w) = Inr ()"
    using assms
    by (simp add: handle_disconnect_def reg_pop_def isalive_def case_prod_unfold split: sum.splits)
  have tr: "trace (snd (handle_disconnect sid env w)) = trace w @
     ([RegDel sid, Alive p a84] @
     (if a84
      then (case alive88 env of
              Inl e \<Rightarrow> [AliveRaised p e]
            | Inr a88 \<Rightarrow>
                [Alive p a88] @ (if a88 then [Call p SendEof] else []) @
                (if a88 \<and> raise88 env \<noteq> None then []
                 else [Sleep] @
                   (case alive90 env of
                      Inl e \<Rightarrow> [AliveRaised p e]
                    | Inr a90 \<Rightarrow>
                        [Alive p a90] @ (if a90 then [Call p (Terminate False)] else []) @
                        (if a90 \<and> raise90 env \<noteq> None then []
                         else [Sleep] @
                           (case alive92 env of
                              Inl e \<Rightarrow> [AliveRaised p e]
                            | Inr a92 \<Rightarrow>
                                [Alive p a92] @ (if a92 then [Call p (Terminate True)] else []))))))
      else []) @
     [LeaveRoom sid])"
    using assms
    by (auto simp add: handle_disconnect_def reg_pop_def terminate_steps_def
        if_alive_call_def isalive_def call_def split: option.splits sum.splits)
  show ?thesis using r since_append [OF tr] by simp
qed

theorem disconnect_graduated_termination_witness:
  "child_processes started ''s'' = Some 0 \<and> alive84 killing_env = Inr True \<and>
   fst (handle_disconnect ''s'' killing_env started) = Inr () \<and>
   since started (snd (handle_disconnect ''s'' killing_env started)) =
     [RegDel ''s'', Alive 0 True, Alive 0 True, Call 0 SendEof,
      Sleep, Alive 0 True, Call 0 (Terminate False),
      Sleep, Alive 0 True, Call 0 (Terminate True), LeaveRoom ''s'']"
  using disconnect_graduated_termination [of started "''s''" 0 killing_env True]
  by (simp add: started_fields killing_env_def)

subsection \<open>C7: forwarding of the output\<close>

text \<open>
  C7 says that what is read from the pty is forwarded byte for byte, without loss. The
  child is spawned with \<^verbatim>\<open>encoding='utf-8'\<close> (line 134) and the pump forwards the text
  that \<^verbatim>\<open>read_nonblocking\<close> returns, skipping an empty one (line 39). When the process
  writes the byte C3 (the first byte of a two-byte character) and exits, the read takes
  the byte from the pty and returns the empty text, the next read raises \<^verbatim>\<open>EOF\<close>, and
  the pump finishes without having sent any \<^verbatim>\<open>gamdl_output\<close>: the byte is lost.
\<close>

theorem held_back_byte_counterexample:
  "fst (read_gamdl_output ''s'' 0 [Output [CHR 0xC3] [], EOF] (Inr False) None started) = Some (Inr ()) \<and>
   taken 0 (since started (snd (read_gamdl_output ''s'' 0 [Output [CHR 0xC3] [], EOF] (Inr False) None started))) =
     [CHR 0xC3] \<and>
   outputs (since started (snd (read_gamdl_output ''s'' 0 [Output [CHR 0xC3] [], EOF] (Inr False) None started))) = []"
proof -
  have tr: "trace (snd (read_gamdl_output ''s'' 0 [Output [CHR 0xC3] [], EOF] (Inr False) None started)) =
     trace started @
     [Read 0 [CHR 0xC3] [], Emit ''s'' (info_message ''gamdl process finished (EOF).''),
      Alive 0 False, RegDel ''s'',
      Emit ''s'' (download_complete ''Download process and cleanup finished.'')]"
    by (simp add: read_gamdl_output_def finalize_def fin_close_def fin_check_def fin_del_def
        fin_notify_def if_alive_call_def isalive_def call_def reg_del_def started_fields)
  show ?thesis using since_append [OF tr]
    by (simp add: read_gamdl_output_def finalize_def fin_close_def fin_check_def fin_del_def
        fin_notify_def if_alive_call_def isalive_def call_def reg_del_def started_fields)
qed

text \<open>
  C7 as amended: the \<^verbatim>\<open>gamdl_output\<close> messages a pump sends are, in order, the non-empty
  texts that its reads returned (the decoded output of the process), each unmodified and
  each sent to the room of the pump's session; an empty text is not forwarded. Hence
  the payloads, put end to end, are the texts returned, put end to end. The texts are
  those the environment hands to the loop, up to the read result that ends it.
\<close>

theorem outputs_are_texts_read:
  "outputs (since w (snd (read_gamdl_output sid p evs r close_exc w))) =
     map (Pair sid) (filter (\<lambda>s. s \<noteq> []) (texts_read evs)) \<and>
   reads p (since w (snd (read_gamdl_output sid p evs r close_exc w))) = texts_read evs \<and>
   concat (map snd (outputs (since w (snd (read_gamdl_output sid p evs r close_exc w))))) =
     concat (texts_read evs)"
proof -
  obtain f w1 where pl: "pump_loop sid p evs w = (f, w1)" by (cases "pump_loop sid p evs w")
  obtain xs where xs: "trace w1 = trace w @ xs"
    "outputs xs = map (Pair sid) (filter (\<lambda>s. s \<noteq> []) (texts_read evs))"
    "reads p xs = texts_read evs"
    using pump_loop_trace [of sid p evs w] pl by auto
  obtain ys where ys: "trace (snd (finalize sid p r close_exc w1)) = trace w1 @ ys"
    "outputs ys = []" "reads p ys = []"
    using finalize_trace [of sid p r close_exc w1] by auto
  have "\<exists>zs. trace (snd (read_gamdl_output sid p evs r close_exc w)) = trace w @ zs \<and>
      outputs zs = map (Pair sid) (filter (\<lambda>s. s \<noteq> []) (texts_read evs)) \<and>
      reads p zs = texts_read evs"
  proof (cases f)
    case Continue
    then show ?thesis using pl xs by (simp add: read_gamdl_output_def)
  next
    case Break
    have "trace (snd (read_gamdl_output sid p evs r close_exc w)) = trace w @ (xs @ ys)"
      using pl Break xs(1) ys(1) by (simp add: read_gamdl_output_def case_prod_unfold)
    moreover have "outputs (xs @ ys) = map (Pair sid) (filter (\<lambda>s. s \<noteq> []) (texts_read evs))"
      "reads p (xs @ ys) = texts_read evs"
      using xs(2,3) ys(2,3) by simp_all
    ultimately show ?thesis by blast
  next
    case (Raise e)
    have "trace (snd (read_gamdl_output sid p evs r close_exc w)) = trace w @ (xs @ ys)"
      using pl Raise xs(1) ys(1)
      by (simp add: read_gamdl_output_def case_prod_unfold split: sum.splits)
    moreover have "outputs (xs @ ys) = map (Pair sid) (filter (\<lambda>s. s \<noteq> []) (texts_read evs))"
      "reads p (xs @ ys) = texts_read evs"
      using xs(2,3) ys(2,3) by simp_all
    ultimately show ?thesis by blast
  qed
  then obtain zs where zs: "trace (snd (read_gamdl_output sid p evs r close_exc w)) = trace w @ zs"
    "outputs zs = map (Pair sid) (filter (\<lambda>s. s \<noteq> []) (texts_read evs))"
    "reads p zs = texts_read evs" by auto
  have c: "concat (filter (\<lambda>s. s \<noteq> []) ss) = concat ss" for ss :: "string list"
    by (induction ss) simp_all
  have "since w (snd (read_gamdl_output sid p evs r close_exc w)) = zs"
    using zs(1) by (rule since_append)
  then show ?thesis using zs(2,3) c by (simp add: comp_def)
qed

subsection \<open>C8: a spawn that fails\<close>

text \<open>
  C8: when a start-request passes the check of line 100 and carries a target, and
  \<^verbatim>\<open>pexpect.spawn\<close> raises, then the handler returns normally, the \<^verbatim>\<open>error_message\<close> of
  line 148 or of line 154, which contains the text of the exception, is sent to the
  session, the dictionary has no entry for the session afterwards (a stale entry is
  deleted), no child and no thread is created, and the next start-request of the
  session passes line 100 whatever the environment does: it runs the body of the
  handler and is not rejected as a duplicate.
\<close>

theorem spawn_failure_leaves_session_startable:
  assumes "sp = ExceptionPexpect e \<or> sp = OtherException e"
    and "data_dict ''url'' = Some url" and "url \<noteq> []"
    and "child_processes w sid = None \<or> alive100 = Inr False"
  shows "fst (handle_start_download sid data_dict alive100 sp w) = Inr () \<and>
         child_processes (snd (handle_start_download sid data_dict alive100 sp w)) sid = None \<and>
         threads (snd (handle_start_download sid data_dict alive100 sp w)) = threads w \<and>
         next_child (snd (handle_start_download sid data_dict alive100 sp w)) = next_child w \<and>
         since w (snd (handle_start_download sid data_dict alive100 sp w)) =
           (case child_processes w sid of None \<Rightarrow> [] | Some p \<Rightarrow> [Alive p False]) @
           [Emit sid (error_message
              (if sp = ExceptionPexpect e
               then ''Failed to start gamdl: '' @ e
                      @ ''. Ensure 'gamdl' is installed and in your system's PATH.''
               else ''An unexpected error occurred while trying to start gamdl: '' @ e))] @
           (if sid \<in> dom (child_processes w) then [RegDel sid] else []) \<and>
         handle_start_download sid data_dict' alive100' sp'
             (snd (handle_start_download sid data_dict alive100 sp w)) =
           (Inr (), start_body sid data_dict' sp' (snd (handle_start_download sid data_dict alive100 sp w)))"
proof -
  let ?w' = "snd (handle_start_download sid data_dict alive100 sp w)"
  have tr: "trace ?w' = trace w @ ((case child_processes w sid of None \<Rightarrow> [] | Some p \<Rightarrow> [Alive p False]) @
           [Emit sid (error_message
              (if sp = ExceptionPexpect e
               then ''Failed to start gamdl: '' @ e
                      @ ''. Ensure 'gamdl' is installed and in your system's PATH.''
               else ''An unexpected error occurred while trying to start gamdl: '' @ e))] @
           (if sid \<in> dom (child_processes w) then [RegDel sid] else []))"
    using assms
    by (auto simp add: handle_start_download_def start_body_def isalive_def Let_def domIff
        split: option.splits)
  have res: "fst (handle_start_download sid data_dict alive100 sp w) = Inr ()"
    using assms
    by (auto simp add: handle_start_download_def isalive_def split: option.splits)
  have reg: "child_processes ?w' sid = None"
    using assms
    by (auto simp add: handle_start_download_def start_body_def isalive_def Let_def
        split: option.splits)
  have th: "threads ?w' = threads w" "next_child ?w' = next_child w"
    using assms
    by (auto simp add: handle_start_download_def start_body_def isalive_def Let_def
        split: option.splits)
  have nxt: "handle_start_download sid data_dict' alive100' sp' ?w' =
      (Inr (), start_body sid data_dict' sp' ?w')"
    using reg by (simp add: handle_start_download_def)
  show ?thesis using tr res reg th nxt since_append [OF tr] by simp
qed

theorem spawn_failure_leaves_session_startable_witness:
  "child_processes started ''s'' = Some 0 \<and>
   child_processes (snd (handle_start_download ''s'' [''url'' \<mapsto> ''v''] (Inr False)
      (ExceptionPexpect ''The command was not found or was not executable: gamdl.'') started)) ''s'' = None \<and>
   since started (snd (handle_start_download ''s'' [''url'' \<mapsto> ''v''] (Inr False)
      (ExceptionPexpect ''The command was not found or was not executable: gamdl.'') started)) =
     [Alive 0 False,
      Emit ''s'' (error_message
        ''Failed to start gamdl: The command was not found or was not executable: gamdl.. Ensure 'gamdl' is installed and in your system's PATH.''),
      RegDel ''s''] \<and>
   child_processes (snd (handle_start_download ''s'' [''url'' \<mapsto> ''v''] (Inr True) Spawned
      (snd (handle_start_download ''s'' [''url'' \<mapsto> ''v''] (Inr False)
         (ExceptionPexpect ''The command was not found or was not executable: gamdl.'') started)))) ''s'' = Some 1"
  using spawn_failure_leaves_session_startable
    [of "ExceptionPexpect ''The command was not found or was not executable: gamdl.''"
        "''The command was not found or was not executable: gamdl.''"
        "[''url'' \<mapsto> ''v'']" "''v''" started "''s''" "Inr False" "[''url'' \<mapsto> ''v'']" "Inr True" Spawned]
  by (simp add: started_fields start_body_def Let_def)

subsection \<open>C9: a start over a stale entry\<close>




subsection \<open>C10: the disconnect handler and exceptions\<close>

text \<open>
  C10 says that the disconnect handler removes the entry and raises no exception,
  whether the process was already dead or not. The entry is always removed (last
  part). But the \<^verbatim>\<open>isalive()\<close> of line 84 stands before the \<^verbatim>\<open>try\<close> of line 86, and the
  library raises from it when the child has been reaped by another thread, that is,
  for a process already dead: the exception leaves the handler and \<^verbatim>\<open>leave_room\<close> is
  not reached. The third part says when exactly the handler raises: when there was an
  entry and that call raises.
\<close>

theorem disconnect_raises_when_isalive_raises:
  "handle_disconnect ''s'' reaped_env started =
     (Inl ''no child process'',
      started\<lparr>child_processes := (child_processes started)(''s'' := None),
              trace := trace started @ [RegDel ''s'', AliveRaised 0 ''no child process'']\<rparr>) \<and>
   LeaveRoom ''s'' \<notin> set (trace (snd (handle_disconnect ''s'' reaped_env started))) \<and>
   fst (handle_disconnect sid env w) =
     (case child_processes w sid of
        None \<Rightarrow> Inr ()
      | Some p \<Rightarrow> (case alive84 env of Inl e \<Rightarrow> Inl e | Inr b \<Rightarrow> Inr ())) \<and>
   child_processes (snd (handle_disconnect sid env w)) = (child_processes w)(sid := None)"
proof -
  have a: "handle_disconnect ''s'' reaped_env started =
     (Inl ''no child process'',
      started\<lparr>child_processes := (child_processes started)(''s'' := None),
              trace := trace started @ [RegDel ''s'', AliveRaised 0 ''no child process'']\<rparr>)"
    by (simp add: handle_disconnect_def reg_pop_def isalive_def log_def reaped_env_def started_fields)
  have b: "fst (handle_disconnect sid env w) =
     (case child_processes w sid of
        None \<Rightarrow> Inr ()
      | Some p \<Rightarrow> (case alive84 env of Inl e \<Rightarrow> Inl e | Inr b \<Rightarrow> Inr ()))"
    by (simp add: handle_disconnect_def reg_pop_def isalive_def case_prod_unfold
        split: option.splits sum.splits)
  show ?thesis using b by (simp add: a started_fields)
qed

end
